theory Spec2Isabelle
  imports Complex_Main "HOL-Library.Multiset"
begin

section \<open>Errors\<close>

text \<open>
  Every exception the modelled Python code can raise is a value of \<open>py_error\<close>; a
  function that may raise returns \<open>py_error + 'a\<close> with \<open>Inl\<close> for the exception.
  \<open>Exception\<close> is the bare \<^verbatim>\<open>Exception\<close> raised by \<open>obtain_connected_components\<close>.
\<close>

datatype py_error = ValueError | TypeError | ZeroDivisionError | IndexError | Exception

section \<open>The composite metric (persistence.py, lines 16-74)\<close>

text \<open>
  Feature values are numbers; they are modelled as reals, so the results below are about
  exact arithmetic and say nothing about rounding in IEEE doubles. Python's \<^verbatim>\<open>%\<close>
  takes the sign of the divisor: \<open>x % m = x - m * floor (x / m)\<close>.
\<close>

definition py_mod :: "real \<Rightarrow> real \<Rightarrow> real" where
  "py_mod x m = x - m * of_int \<lfloor>x / m\<rfloor>"

definition seconds_per_day :: real where
  "seconds_per_day = 24 * 60 * 60"

definition metric_mail_count :: "real \<Rightarrow> real \<Rightarrow> real" where
  "metric_mail_count mail_count_1 mail_count_2 = \<bar>mail_count_1 - mail_count_2\<bar>"

definition metric_seconds :: "real \<Rightarrow> real \<Rightarrow> real" where
  "metric_seconds timestamp_1 timestamp_2 =
     min (py_mod (timestamp_1 - timestamp_2) seconds_per_day)
         (py_mod (timestamp_2 - timestamp_1) seconds_per_day)"

definition metric_weekday :: "real \<Rightarrow> real \<Rightarrow> real" where
  "metric_weekday weekday_1 weekday_2 = \<bar>weekday_1 - weekday_2\<bar>"

text \<open>
  \<^verbatim>\<open>Data(*nd_array)\<close> builds the named tuple from exactly three values and raises
  \<^verbatim>\<open>TypeError\<close> for any other number of values.
\<close>

record Data =
  mail_count :: real
  seconds :: real
  weekday :: real

fun Data_of :: "real list \<Rightarrow> py_error + Data" where
  "Data_of [c, s, w] = Inr \<lparr>mail_count = c, seconds = s, weekday = w\<rparr>"
| "Data_of _ = Inl TypeError"

definition product_metric :: "real list \<Rightarrow> real list \<Rightarrow> py_error + real" where
  "product_metric nd_array_1 nd_array_2 =
     (case Data_of nd_array_1 of
        Inl e \<Rightarrow> Inl e
      | Inr data_1 \<Rightarrow>
          (case Data_of nd_array_2 of
             Inl e \<Rightarrow> Inl e
           | Inr data_2 \<Rightarrow>
               (let d_1 = metric_mail_count (mail_count data_1) (mail_count data_2);
                    d_2 = metric_seconds (seconds data_1) (seconds data_2);
                    d_3 = metric_weekday (weekday data_1) (weekday data_2)
                in Inr (sqrt (d_1 ^ 2 + d_2 ^ 2 + d_3 ^ 2)))))"


section \<open>Dictionaries in insertion order\<close>

text \<open>
  A Python \<^verbatim>\<open>dict\<close> iterates over its keys in the order of their first insertion,
  and the feature aggregation depends on that order. A dictionary is therefore an
  association list with distinct keys, oldest key first. \<open>dict_get\<close> with a default is
  the read of a \<^verbatim>\<open>defaultdict\<close>; \<open>dict_set\<close> is \<^verbatim>\<open>d[k] = v\<close>.
\<close>

type_synonym ('k, 'v) dict = "('k \<times> 'v) list"

fun dict_get :: "('k, 'v) dict \<Rightarrow> 'k \<Rightarrow> 'v \<Rightarrow> 'v" where
  "dict_get [] k dflt = dflt"
| "dict_get ((k', v) # d) k dflt = (if k = k' then v else dict_get d k dflt)"

fun dict_set :: "'k \<Rightarrow> 'v \<Rightarrow> ('k, 'v) dict \<Rightarrow> ('k, 'v) dict" where
  "dict_set k v [] = [(k, v)]"
| "dict_set k v ((k', v') # d) = (if k = k' then (k', v) # d else (k', v') # dict_set k v d)"

text \<open>\<^verbatim>\<open>d[k] += 1\<close> on a \<^verbatim>\<open>defaultdict(int)\<close> and \<^verbatim>\<open>d[k].append(x)\<close> on a \<^verbatim>\<open>defaultdict(list)\<close>.\<close>

definition dict_incr :: "'k \<Rightarrow> ('k, nat) dict \<Rightarrow> ('k, nat) dict" where
  "dict_incr k d = dict_set k (dict_get d k 0 + 1) d"

definition dict_append :: "'k \<Rightarrow> 'v \<Rightarrow> ('k, 'v list) dict \<Rightarrow> ('k, 'v list) dict" where
  "dict_append k x d = dict_set k (dict_get d k [] @ [x]) d"

section \<open>Date-times\<close>

text \<open>
  The fields of \<^verbatim>\<open>datetime.datetime\<close> that the program reads. \<open>weekday()\<close> is the
  standard library's \<^verbatim>\<open>(toordinal() + 6) % 7\<close> on the proleptic Gregorian ordinal, with
  Monday as 0. A date-time object always has \<open>hour < 24\<close>, \<open>minute < 60\<close> and
  \<open>second < 60\<close>: \<open>valid_time\<close>.
\<close>

record datetime =
  year :: int
  month :: int
  day :: int
  hour :: int
  minute :: int
  second :: int

definition is_leap :: "int \<Rightarrow> bool" where
  "is_leap y = (y mod 4 = 0 \<and> (y mod 100 \<noteq> 0 \<or> y mod 400 = 0))"

definition days_before_year :: "int \<Rightarrow> int" where
  "days_before_year y = (y - 1) * 365 + (y - 1) div 4 - (y - 1) div 100 + (y - 1) div 400"

definition days_before_month :: "int \<Rightarrow> int \<Rightarrow> int" where
  "days_before_month y m =
     [0, 0, 31, 59, 90, 120, 151, 181, 212, 243, 273, 304, 334] ! nat m
       + (if m > 2 \<and> is_leap y then 1 else 0)"

definition toordinal :: "datetime \<Rightarrow> int" where
  "toordinal t = days_before_year (year t) + days_before_month (year t) (month t) + day t"

definition dt_weekday :: "datetime \<Rightarrow> int" where
  "dt_weekday t = (toordinal t + 6) mod 7"

definition valid_time :: "datetime \<Rightarrow> bool" where
  "valid_time t = (0 \<le> hour t \<and> hour t < 24 \<and> 0 \<le> minute t \<and> minute t < 60
                   \<and> 0 \<le> second t \<and> second t < 60)"

section \<open>Feature aggregation (features.py, lines 34-75)\<close>

text \<open>
  \<^verbatim>\<open>round(a / b)\<close> on integers: the quotient is taken exactly, as a rational, and rounded
  to the nearest integer, a tie going to the even neighbour as Python 3 does. (The
  source divides in double precision first; for the totals of a mailbox the two agree.)
  A division by zero raises.
\<close>

definition py_round :: "rat \<Rightarrow> int" where
  "py_round x =
     (let f = \<lfloor>x\<rfloor>; d = x - of_int f
      in if d < 1 / 2 then f else if 1 / 2 < d then f + 1 else if even f then f else f + 1)"

definition round_div :: "int \<Rightarrow> int \<Rightarrow> py_error + int" where
  "round_div a b = (if b = 0 then Inl ZeroDivisionError else Inr (py_round (of_int a / of_int b)))"

text \<open>
  \<open>average_timestamps_in_seconds\<close>. The source initialises \<open>seconds_total\<close> once,
  before the loop over the senders, and never resets it: the loop below carries it from
  one sender to the next exactly so.
\<close>

definition seconds_of_timestamp :: "datetime \<Rightarrow> int" where
  "seconds_of_timestamp t = hour t * 3600 + minute t * 60 + second t"

fun average_timestamps_loop ::
  "(string, datetime list) dict \<Rightarrow> int \<Rightarrow> (string, int) dict \<Rightarrow> py_error + (string, int) dict"
where
  "average_timestamps_loop [] seconds_total timestamps_in_seconds = Inr timestamps_in_seconds"
| "average_timestamps_loop ((sender, ts) # rest) seconds_total timestamps_in_seconds =
     (let number_of_timestamps = int (length ts);
          seconds_total' = fold (\<lambda>t acc. acc + seconds_of_timestamp t) ts seconds_total
      in case round_div seconds_total' number_of_timestamps of
           Inl e \<Rightarrow> Inl e
         | Inr seconds_average \<Rightarrow>
             average_timestamps_loop rest seconds_total'
               (dict_set sender seconds_average timestamps_in_seconds))"

definition average_timestamps_in_seconds ::
  "(string, datetime list) dict \<Rightarrow> py_error + (string, int) dict" where
  "average_timestamps_in_seconds datetimes_per_sender =
     average_timestamps_loop datetimes_per_sender 0 []"

text \<open>\<open>weekday_average\<close> sums each sender's weekdays on their own.\<close>

fun weekday_average_loop ::
  "(string, datetime list) dict \<Rightarrow> (string, int) dict \<Rightarrow> py_error + (string, int) dict"
where
  "weekday_average_loop [] average_weekday_per_sender = Inr average_weekday_per_sender"
| "weekday_average_loop ((sender, ts) # rest) average_weekday_per_sender =
     (let datum_count = int (length ts);
          weekdays = map dt_weekday ts
      in case round_div (sum_list weekdays) datum_count of
           Inl e \<Rightarrow> Inl e
         | Inr avg \<Rightarrow>
             weekday_average_loop rest (dict_set sender avg average_weekday_per_sender))"

definition weekday_average ::
  "(string, datetime list) dict \<Rightarrow> py_error + (string, int) dict" where
  "weekday_average datetime_per_sender = weekday_average_loop datetime_per_sender []"

text \<open>
  What the specification asks of the time feature: the rounded mean of one sender's own
  seconds since midnight.
\<close>

definition mean_seconds_spec :: "datetime list \<Rightarrow> py_error + int" where
  "mean_seconds_spec ts = round_div (sum_list (map seconds_of_timestamp ts)) (int (length ts))"

definition at_time :: "int \<Rightarrow> int \<Rightarrow> int \<Rightarrow> datetime" where
  "at_time h m s = \<lparr>year = 2023, month = 6, day = 5, hour = h, minute = m, second = s\<rparr>"


section \<open>Strings\<close>

text \<open>
  The operations of Python's \<^verbatim>\<open>str\<close> that the mail parser uses. \<open>py_find s sub\<close> is
  \<^verbatim>\<open>s.find(sub)\<close>: the lowest index at which \<open>sub\<close> occurs, or \<open>-1\<close>; \<open>contains s sub\<close>
  is \<^verbatim>\<open>sub in s\<close>. \<open>py_slice s lo hi\<close> is \<^verbatim>\<open>s[lo:hi]\<close>, where a negative index counts
  from the end and both ends are clamped to the string. \<open>py_split s sep\<close> is
  \<^verbatim>\<open>s.split(sep)\<close> for a non-empty separator, cutting at the occurrences of \<open>sep\<close>
  from left to right. \<open>lower\<close> maps the letters A to Z to a to z and leaves every other
  character alone (strings are byte strings here).
\<close>

fun py_find :: "string \<Rightarrow> string \<Rightarrow> int" where
  "py_find [] sub = (if sub = [] then 0 else - 1)"
| "py_find (c # s) sub =
     (if take (length sub) (c # s) = sub then 0
      else (let r = py_find s sub in if r < 0 then - 1 else r + 1))"

definition contains :: "string \<Rightarrow> string \<Rightarrow> bool" where
  "contains s sub = (0 \<le> py_find s sub)"

definition py_slice :: "string \<Rightarrow> int \<Rightarrow> int \<Rightarrow> string" where
  "py_slice s lo hi =
     (let n = int (length s);
          a = (if lo < 0 then max (lo + n) 0 else min lo n);
          b = (if hi < 0 then max (hi + n) 0 else min hi n)
      in take (nat (b - a)) (drop (nat a) s))"

fun split_from :: "string \<Rightarrow> string \<Rightarrow> string \<Rightarrow> string list" where
  "split_from sep piece [] = [piece]"
| "split_from sep piece (c # s) =
     (if take (length sep) (c # s) = sep
      then piece # split_from sep [] (drop (length sep - 1) s)
      else split_from sep (piece @ [c]) s)"

definition py_split :: "string \<Rightarrow> string \<Rightarrow> string list" where
  "py_split s sep = split_from sep [] s"

definition lower_char :: "char \<Rightarrow> char" where
  "lower_char c =
     (let n = (of_char c :: nat) in if 65 \<le> n \<and> n \<le> 90 then char_of (n + 32) else c)"

definition lower :: "string \<Rightarrow> string" where
  "lower s = map lower_char s"

section \<open>Mail parsing (mailanalysis.py, lines 14-97)\<close>

text \<open>
  A message exposes its \<^verbatim>\<open>From\<close> and \<^verbatim>\<open>Date\<close> headers, each of which may be absent.
\<close>

record message =
  From :: "string option"
  Date :: "string option"

text \<open>
  Lines 42 to 51 of \<open>parse_mails\<close>: the address under which a message is counted, or
  \<open>None\<close> when the loop moves on to the next message. The start of the slice is two
  characters after the first occurrence of a blank followed by \<open><\<close>.
\<close>

definition sender_address :: "string \<Rightarrow> string option" where
  "sender_address sender =
     (if \<not> contains sender ''@'' then None
      else if length (py_split sender ''@'') \<noteq> 2 then None
      else Some (lower
        (if contains sender ''<'' \<and> contains sender ''>''
         then py_slice sender (py_find sender '' <'' + 2) (py_find sender ''>'')
         else sender)))"

text \<open>Line 54: the date header up to five characters after its first colon.\<close>

definition date_string_of :: "string \<Rightarrow> string" where
  "date_string_of datum = py_slice datum 0 (py_find datum '':'' + 6)"

text \<open>
  \<open>parse_datetime\<close>. \<^verbatim>\<open>datetime.datetime.strptime\<close> belongs to the standard library and
  is a parameter of the model: \<open>strptime datum format_string\<close> is \<open>None\<close> where the
  library raises \<^verbatim>\<open>ValueError\<close>. Lines 82 and 83 are \<open>strip_offset\<close>: unpacking the
  result of \<^verbatim>\<open>split\<close> into two names raises \<^verbatim>\<open>ValueError\<close> unless there are exactly two
  pieces. The result of \<^verbatim>\<open>datum.strip()\<close> on line 84 is dropped by the source.
\<close>

type_synonym strptime = "string \<Rightarrow> string \<Rightarrow> datetime option"

definition strip_offset :: "string \<Rightarrow> py_error + string" where
  "strip_offset datum =
     (if contains datum '' +''
      then (case py_split datum '' +'' of [datum', _] \<Rightarrow> Inr datum' | _ \<Rightarrow> Inl ValueError)
      else Inr datum)"

definition format_strings :: "string list" where
  "format_strings =
     [''%a, %d %b %Y %H:%M:%S'', ''%a, %d %b %Y %H:%M'', ''%d %b %Y %H:%M:%S'', ''%d %b %Y %H:%M'']"

fun try_formats :: "strptime \<Rightarrow> string \<Rightarrow> string list \<Rightarrow> py_error + datetime" where
  "try_formats strptime datum [] = Inl ValueError"
| "try_formats strptime datum (format_string # fs) =
     (case strptime datum format_string of
        Some datetime_obj \<Rightarrow> Inr datetime_obj
      | None \<Rightarrow> try_formats strptime datum fs)"

definition parse_datetime :: "strptime \<Rightarrow> string \<Rightarrow> py_error + datetime" where
  "parse_datetime strptime datum =
     (case strip_offset datum of
        Inl e \<Rightarrow> Inl e
      | Inr datum' \<Rightarrow> try_formats strptime datum' format_strings)"

text \<open>The first loop of \<open>parse_mails\<close>; an exception of \<open>parse_datetime\<close> is not caught.\<close>

fun parse_mails_loop ::
  "strptime \<Rightarrow> message list \<Rightarrow> (string, nat) dict \<Rightarrow> (string, datetime list) dict
     \<Rightarrow> py_error + ((string, nat) dict \<times> (string, datetime list) dict)"
where
  "parse_mails_loop strptime [] mails_per_address datetimes_per_sender =
     Inr (mails_per_address, datetimes_per_sender)"
| "parse_mails_loop strptime (message # mail) mails_per_address datetimes_per_sender =
     (case From message of
        None \<Rightarrow> parse_mails_loop strptime mail mails_per_address datetimes_per_sender
      | Some sender \<Rightarrow>
     (case Date message of
        None \<Rightarrow> parse_mails_loop strptime mail mails_per_address datetimes_per_sender
      | Some datum \<Rightarrow>
     (case sender_address sender of
        None \<Rightarrow> parse_mails_loop strptime mail mails_per_address datetimes_per_sender
      | Some sender' \<Rightarrow>
     (case parse_datetime strptime (date_string_of datum) of
        Inl e \<Rightarrow> Inl e
      | Inr datetime_obj \<Rightarrow>
          parse_mails_loop strptime mail
            (dict_incr sender' mails_per_address)
            (dict_append sender' datetime_obj datetimes_per_sender)))))"

text \<open>The second loop: the senders with at least \<open>THRESHOLD\<close> mails, in order.\<close>

fun threshold_loop ::
  "string list \<Rightarrow> (string, nat) dict \<Rightarrow> (string, datetime list) dict \<Rightarrow> int
     \<Rightarrow> (string, nat) dict \<Rightarrow> (string, datetime list) dict
     \<Rightarrow> (string, nat) dict \<times> (string, datetime list) dict"
where
  "threshold_loop [] mails_per_address datetimes_per_sender THRESHOLD with_m with_d =
     (with_m, with_d)"
| "threshold_loop (address # rest) mails_per_address datetimes_per_sender THRESHOLD with_m with_d =
     (if THRESHOLD \<le> int (dict_get mails_per_address address 0)
      then threshold_loop rest mails_per_address datetimes_per_sender THRESHOLD
             (dict_set address (dict_get mails_per_address address 0) with_m)
             (dict_set address (dict_get datetimes_per_sender address []) with_d)
      else threshold_loop rest mails_per_address datetimes_per_sender THRESHOLD with_m with_d)"

definition parse_mails ::
  "strptime \<Rightarrow> message list \<Rightarrow> int
     \<Rightarrow> py_error + ((string, nat) dict \<times> (string, datetime list) dict)" where
  "parse_mails strptime mail THRESHOLD =
     (case parse_mails_loop strptime mail [] [] of
        Inl e \<Rightarrow> Inl e
      | Inr (mails_per_address, datetimes_per_sender) \<Rightarrow>
          Inr (threshold_loop (map fst mails_per_address) mails_per_address
                 datetimes_per_sender THRESHOLD [] []))"

text \<open>
  Two instances of the date parser for concrete runs: one that matches the single date
  string \<open>5 Jun 2023 10:00\<close>, under the fourth pattern only, and one that takes every
  string for 10:00:00 on 5 June 2023.
\<close>

definition short_format_only :: strptime where
  "short_format_only datum format_string =
     (if datum = ''5 Jun 2023 10:00'' \<and> format_string = ''%d %b %Y %H:%M''
      then Some (at_time 10 0 0) else None)"

definition any_match :: strptime where
  "any_match datum format_string = Some (at_time 10 0 0)"

text \<open>The count dictionary that belongs to a dictionary of timestamp lists.\<close>

definition counts_of :: "(string, datetime list) dict \<Rightarrow> (string, nat) dict" where
  "counts_of d = map (\<lambda>(a, ts). (a, length ts)) d"


section \<open>Connected components (persistence.py, lines 185-219)\<close>

text \<open>
  The persistence data is the dictionary returned by the persistence engine; the
  function below reads and writes its entry \<^verbatim>\<open>'dperm2all'\<close>, the matrix of pairwise
  distances, and nothing else of it. The matrix is a list of rows.
\<close>

type_synonym matrix = "real list list"

record persistence =
  dperm2all :: matrix

text \<open>
  Lines 204 to 208: every element of the matrix is overwritten, through a read-write
  iterator, with 1.0 where it is at most \<open>epsilon\<close> and with 0.0 elsewhere.
  \<^verbatim>\<open>numpy.nditer\<close> refuses an array that has no element at all with \<^verbatim>\<open>ValueError\<close>
  (the flag \<^verbatim>\<open>zerosize_ok\<close> is not given): \<open>zero_sized\<close>.
\<close>

definition zero_sized :: "matrix \<Rightarrow> bool" where
  "zero_sized distance_matrix = (concat distance_matrix = [])"

definition threshold :: "real \<Rightarrow> matrix \<Rightarrow> matrix" where
  "threshold epsilon distance_matrix =
     map (map (\<lambda>element. if element \<le> epsilon then 1 else 0)) distance_matrix"

subsection \<open>The library routine for connected components\<close>

text \<open>
  \<^verbatim>\<open>scipy.sparse.csgraph.connected_components(csgraph, directed=False,
  return_labels=True)\<close> is library code. Its model here: the graph must be a square
  matrix (\<^verbatim>\<open>ValueError\<close> otherwise); a zero entry is no edge; for an undirected graph
  the nodes \<open>v\<close> and \<open>w\<close> are joined when either of the entries \<open>(v, w)\<close> and \<open>(w, v)\<close>
  is not zero. The nodes are visited in increasing order; a node that has no label yet
  gets the next label, starting from 0, together with every node that can be reached
  from it. \<open>component g v\<close> is that set of nodes, found by adding the neighbours of the
  nodes found so far, as many times as the graph has nodes.
\<close>

definition square :: "matrix \<Rightarrow> bool" where
  "square g = list_all (\<lambda>row. length row = length g) g"

definition edge :: "matrix \<Rightarrow> nat \<Rightarrow> nat \<Rightarrow> bool" where
  "edge g v w = (\<not> (g ! v ! w = 0 \<and> g ! w ! v = 0))"

definition expand :: "matrix \<Rightarrow> nat list \<Rightarrow> nat list" where
  "expand g S = filter (\<lambda>w. w \<in> set S \<or> list_ex (\<lambda>v. edge g v w) S) [0..<length g]"

fun closure :: "matrix \<Rightarrow> nat \<Rightarrow> nat list \<Rightarrow> nat list" where
  "closure g 0 S = S"
| "closure g (Suc k) S = closure g k (expand g S)"

definition component :: "matrix \<Rightarrow> nat \<Rightarrow> nat list" where
  "component g v = closure g (length g) [v]"

definition VOID :: int where
  "VOID = - 1"

definition fill :: "nat list \<Rightarrow> int \<Rightarrow> int list \<Rightarrow> int list" where
  "fill ws label labels = fold (\<lambda>w ls. ls[w := label]) ws labels"

fun label_nodes :: "matrix \<Rightarrow> nat list \<Rightarrow> int list \<Rightarrow> int \<Rightarrow> int list" where
  "label_nodes g [] labels label = labels"
| "label_nodes g (v # vs) labels label =
     (if labels ! v = VOID
      then label_nodes g vs (fill (component g v) label labels) (label + 1)
      else label_nodes g vs labels label)"

definition connected_components :: "matrix \<Rightarrow> py_error + int list" where
  "connected_components csgraph =
     (if \<not> square csgraph then Inl ValueError
      else Inr (label_nodes csgraph [0..<length csgraph]
                  (replicate (length csgraph) VOID) 0))"

subsection \<open>\<open>obtain_connected_components\<close>\<close>

text \<open>
  Lines 211 to 217: the loop over \<^verbatim>\<open>enumerate(labels)\<close>, which appends the data point
  and the identifier of index \<open>i\<close> to the lists kept under the label of \<open>i\<close>. An index
  beyond the identifiers raises \<^verbatim>\<open>IndexError\<close>.
\<close>

fun group_loop ::
  "(nat \<times> int) list \<Rightarrow> real list list \<Rightarrow> string list
     \<Rightarrow> (int, real list list) dict \<Rightarrow> (int, string list) dict
     \<Rightarrow> py_error + ((int, real list list) dict \<times> (int, string list) dict)"
where
  "group_loop [] data_points identifiers connected_data_points connected_identifiers =
     Inr (connected_data_points, connected_identifiers)"
| "group_loop ((i, entry) # rest) data_points identifiers
       connected_data_points connected_identifiers =
     (if length data_points \<le> i then Inl IndexError
      else if length identifiers \<le> i then Inl IndexError
      else group_loop rest data_points identifiers
             (dict_append entry (data_points ! i) connected_data_points)
             (dict_append entry (identifiers ! i) connected_identifiers))"

text \<open>
  The function returns the persistence data as the call leaves it, next to its result
  or exception: \<^verbatim>\<open>distance_matrix\<close> is the very array stored in the persistence data, so
  the writes of lines 204 to 208 are writes to that entry.
\<close>

definition obtain_connected_components ::
  "real list list \<times> string list \<Rightarrow> persistence \<Rightarrow> real
     \<Rightarrow> persistence \<times> (py_error + ((int, real list list) dict \<times> (int, string list) dict))"
where
  "obtain_connected_components data_collection persistence epsilon =
     (let data_points = fst data_collection;
          identifiers = snd data_collection
      in if zero_sized (dperm2all persistence) then (persistence, Inl ValueError)
         else
           (let distance_matrix = threshold epsilon (dperm2all persistence);
                persistence' = persistence\<lparr>dperm2all := distance_matrix\<rparr>
            in (persistence',
                (case connected_components distance_matrix of
                   Inl e \<Rightarrow> Inl e
                 | Inr labels \<Rightarrow>
                     if length labels = length data_points
                     then group_loop (enumerate 0 labels) data_points identifiers [] []
                     else Inl Exception))))"

subsection \<open>Paths of close pairs\<close>

text \<open>
  The relation the specification speaks of: two indices of the matrix form an edge when
  the distance between them, read in either direction, is at most \<open>epsilon\<close>. Two
  indices are connected by a path when they are related by its reflexive transitive
  closure. In a symmetric matrix the two directions read the same entry.
  \<open>links g\<close> is the same for the graph handed to the library routine.
\<close>

definition close_pairs :: "matrix \<Rightarrow> real \<Rightarrow> (nat \<times> nat) set" where
  "close_pairs m epsilon =
     {(i, j). i < length m \<and> j < length m \<and> (m ! i ! j \<le> epsilon \<or> m ! j ! i \<le> epsilon)}"

definition symmetric :: "matrix \<Rightarrow> bool" where
  "symmetric m = (\<forall>i < length m. \<forall>j < length m. m ! i ! j = m ! j ! i)"

definition links :: "matrix \<Rightarrow> (nat \<times> nat) set" where
  "links g = {(v, w). v < length g \<and> w < length g \<and> edge g v w}"

text \<open>
  The invariant of the labelling loop once the nodes in \<open>P\<close> have been visited: a node
  has a label exactly when a path joins it to a visited node, the labels given so far
  lie below the next one, and two labelled nodes share their label exactly when a path
  joins them.
\<close>

definition labelled_ok :: "matrix \<Rightarrow> nat set \<Rightarrow> int list \<Rightarrow> int \<Rightarrow> bool" where
  "labelled_ok g P labels label =
     (length labels = length g \<and> 0 \<le> label
      \<and> (\<forall>w < length g. labels ! w = VOID \<or> (0 \<le> labels ! w \<and> labels ! w < label))
      \<and> (\<forall>w < length g. labels ! w \<noteq> VOID \<longleftrightarrow> (\<exists>v \<in> P. (v, w) \<in> (links g)\<^sup>*))
      \<and> (\<forall>w < length g. \<forall>w' < length g. labels ! w \<noteq> VOID \<longrightarrow> labels ! w' \<noteq> VOID \<longrightarrow>
            (labels ! w = labels ! w' \<longleftrightarrow> (w, w') \<in> (links g)\<^sup>*)))"

text \<open>The matrix of scenario C of the specification.\<close>

definition scenario_c :: matrix where
  "scenario_c = [[0, 0.5, 2], [0.5, 0, 2], [2, 2, 0]]"


section \<open>Properties of the composite metric\<close>

lemma py_mod_nonneg: "0 < m \<Longrightarrow> 0 \<le> py_mod x m"
proof -
  assume m: "0 < m"
  have "of_int \<lfloor>x / m\<rfloor> \<le> x / m" by (rule of_int_floor_le)
  then have "m * of_int \<lfloor>x / m\<rfloor> \<le> m * (x / m)" using m by (intro mult_left_mono) simp_all
  then have "m * of_int \<lfloor>x / m\<rfloor> \<le> x" using m by simp
  then show ?thesis by (simp add: py_mod_def)
qed

lemma py_mod_less: "0 < m \<Longrightarrow> py_mod x m < m"
proof -
  assume m: "0 < m"
  have "x / m < of_int \<lfloor>x / m\<rfloor> + 1" by linarith
  then have "m * (x / m) < m * (of_int \<lfloor>x / m\<rfloor> + 1)" using m by (intro mult_strict_left_mono) simp_all
  then have "x < m * (of_int \<lfloor>x / m\<rfloor> + 1)" using m by simp
  then show ?thesis by (simp add: py_mod_def algebra_simps)
qed

lemma py_mod_zero: "py_mod 0 m = 0"
  by (simp add: py_mod_def)

lemma py_mod_of_int: "py_mod (of_int a) (of_int m) = of_int (a mod m)"
proof -
  have "\<lfloor>(of_int a :: real) / of_int m\<rfloor> = a div m" by (simp add: floor_divide_of_int_eq)
  then show ?thesis by (simp add: py_mod_def minus_div_mult_eq_mod [symmetric] mult.commute)
qed

lemma py_mod_unique:
  assumes "0 < m" "0 \<le> r" "r < m" "x = m * of_int k + r"
  shows "py_mod x m = r"
proof -
  have "x / m = of_int k + r / m" using assms by (simp add: field_simps)
  moreover have "0 \<le> r / m" "r / m < 1" using assms by simp_all
  ultimately have "\<lfloor>x / m\<rfloor> = k" by (simp add: floor_unique)
  then show ?thesis using assms by (simp add: py_mod_def)
qed

lemma py_mod_neg: "0 < m \<Longrightarrow> py_mod x m \<noteq> 0 \<Longrightarrow> py_mod (- x) m = m - py_mod x m"
proof -
  assume m: "0 < m" and nz: "py_mod x m \<noteq> 0"
  let ?r = "py_mod x m"
  have r: "0 \<le> ?r" "?r < m" using m by (simp_all add: py_mod_nonneg py_mod_less)
  have "- x = m * of_int (- \<lfloor>x / m\<rfloor> - 1) + (m - ?r)"
    by (simp add: py_mod_def algebra_simps)
  moreover have "0 \<le> m - ?r" "m - ?r < m" using r nz by simp_all
  ultimately show ?thesis using m py_mod_unique by blast
qed

lemma py_mod_neg0: "0 < m \<Longrightarrow> py_mod x m = 0 \<Longrightarrow> py_mod (- x) m = 0"
proof -
  assume m: "0 < m" and z: "py_mod x m = 0"
  have "- x = m * of_int (- \<lfloor>x / m\<rfloor>) + 0" using z by (simp add: py_mod_def)
  then show ?thesis using m py_mod_unique [of m 0 "- x" "- \<lfloor>x / m\<rfloor>"] by blast
qed

lemma metric_seconds_le_half: "metric_seconds a b \<le> seconds_per_day / 2"
proof -
  have m: "0 < seconds_per_day" by (simp add: seconds_per_day_def)
  let ?r = "py_mod (a - b) seconds_per_day"
  have ba: "b - a = - (a - b)" by simp
  show ?thesis
  proof (cases "?r = 0")
    case True
    then show ?thesis using m by (simp add: metric_seconds_def)
  next
    case False
    then have "py_mod (b - a) seconds_per_day = seconds_per_day - ?r"
      using m py_mod_neg ba by metis
    then show ?thesis by (simp add: metric_seconds_def min_def)
  qed
qed

lemma metric_seconds_sym: "metric_seconds a b = metric_seconds b a"
  by (simp add: metric_seconds_def min.commute)

lemma metric_seconds_self: "metric_seconds a a = 0"
  by (simp add: metric_seconds_def py_mod_zero)

lemma metric_seconds_nonneg: "0 \<le> metric_seconds a b"
  by (simp add: metric_seconds_def seconds_per_day_def py_mod_nonneg)

lemma metric_seconds_of_int:
  "metric_seconds (of_int i) (of_int j) = of_int (min ((i - j) mod 86400) ((j - i) mod 86400))"
proof -
  have s: "seconds_per_day = of_int 86400" by (simp add: seconds_per_day_def)
  have "py_mod (of_int i - of_int j) seconds_per_day = of_int ((i - j) mod 86400)"
    unfolding s of_int_diff [symmetric] by (rule py_mod_of_int)
  moreover have "py_mod (of_int j - of_int i) seconds_per_day = of_int ((j - i) mod 86400)"
    unfolding s of_int_diff [symmetric] by (rule py_mod_of_int)
  ultimately show ?thesis by (simp add: metric_seconds_def)
qed

text \<open>
  Claim C7. The time sub-metric is \<open>min ((a - b) mod 86400) ((b - a) mod 86400)\<close>, on
  numbers in general and, for integer timestamps, with the integer remainder; it is
  symmetric, vanishes on equal arguments, is never negative and never exceeds 43200,
  a value it takes at \<open>(0, 43200)\<close>. The bound holds for all inputs, in particular for
  timestamps in \<open>[0, 86400)\<close>.
\<close>

theorem metric_seconds_spec:
  "metric_seconds a b = min (py_mod (a - b) 86400) (py_mod (b - a) 86400)
   \<and> metric_seconds (of_int i) (of_int j)
       = of_int (min ((i - j) mod 86400) ((j - i) mod 86400))
   \<and> metric_seconds a b = metric_seconds b a
   \<and> metric_seconds a a = 0
   \<and> 0 \<le> metric_seconds a b
   \<and> metric_seconds a b \<le> 43200
   \<and> metric_seconds 0 43200 = 43200"
proof -
  have "metric_seconds a b = min (py_mod (a - b) 86400) (py_mod (b - a) 86400)"
    by (simp add: metric_seconds_def seconds_per_day_def)
  moreover have "metric_seconds a b \<le> 43200"
    using metric_seconds_le_half [of a b] by (simp add: seconds_per_day_def)
  moreover have "metric_seconds 0 43200 = 43200"
    using metric_seconds_of_int [of 0 43200] by simp
  ultimately show ?thesis
    using metric_seconds_of_int metric_seconds_sym metric_seconds_self metric_seconds_nonneg
    by blast
qed

lemma product_metric_3:
  "product_metric [c1, s1, w1] [c2, s2, w2] =
     Inr (sqrt ((metric_mail_count c1 c2)\<^sup>2 + (metric_seconds s1 s2)\<^sup>2 + (metric_weekday w1 w2)\<^sup>2))"
  by (simp add: product_metric_def)

lemma length_3_cases: "length xs = 3 \<Longrightarrow> \<exists>a b c. xs = [a, b, c]"
  by (cases xs; cases "tl xs"; cases "tl (tl xs)") auto

text \<open>
  Claim C6. On vectors of three features the composite metric returns a value, which
  depends on its two arguments only; the distance of a vector to itself is 0, the
  distance is symmetric, and it is never negative.
\<close>

theorem product_metric_properties:
  assumes "length x = 3" and "length y = 3"
  shows "product_metric x x = Inr 0
       \<and> product_metric x y = product_metric y x
       \<and> (\<exists>d. product_metric x y = Inr d \<and> 0 \<le> d)"
proof -
  obtain c1 s1 w1 where x: "x = [c1, s1, w1]" using assms(1) length_3_cases by blast
  obtain c2 s2 w2 where y: "y = [c2, s2, w2]" using assms(2) length_3_cases by blast
  have "product_metric x x = Inr 0"
    by (simp add: x product_metric_3 metric_seconds_self metric_mail_count_def metric_weekday_def)
  moreover have "product_metric x y = product_metric y x"
    by (simp add: x y product_metric_3 metric_seconds_sym [of s1 s2]
        metric_mail_count_def metric_weekday_def abs_minus_commute)
  moreover have "\<exists>d. product_metric x y = Inr d \<and> 0 \<le> d"
    by (simp add: x y product_metric_3)
  ultimately show ?thesis by blast
qed

theorem product_metric_properties_witness:
  "length [1, 2, 3 :: real] = 3 \<and> length [4, 5, 6 :: real] = 3
   \<and> product_metric [1, 2, 3] [1, 2, 3] = Inr 0
   \<and> product_metric [1, 2, 3] [4, 5, 6] = product_metric [4, 5, 6] [1, 2, 3]
   \<and> (\<exists>d. product_metric [1, 2, 3] [4, 5, 6] = Inr d \<and> 0 \<le> d)"
proof -
  have h: "length [1, 2, 3 :: real] = 3" "length [4, 5, 6 :: real] = 3" by simp_all
  show ?thesis using product_metric_properties [OF h] h by blast
qed


section \<open>Feature aggregation\<close>

lemma py_round_of_int: "py_round (of_int n) = n"
  by (simp add: py_round_def)

lemma round_div_one: "round_div a 1 = Inr a"
  using py_round_of_int [of a] by (simp add: round_div_def)

lemma fold_seconds:
  "fold (\<lambda>t acc. acc + seconds_of_timestamp t) ts a
     = a + sum_list (map seconds_of_timestamp ts)"
  by (induction ts arbitrary: a) simp_all

text \<open>
  What the loop computes for a sender: the running total of all senders so far, this
  one included, divided by this sender's number of timestamps. Only for the first
  sender is that the mean of its own timestamps.
\<close>

lemma average_timestamps_loop_step:
  "average_timestamps_loop ((sender, ts) # rest) seconds_total acc =
     (case round_div (seconds_total + sum_list (map seconds_of_timestamp ts)) (int (length ts)) of
        Inl e \<Rightarrow> Inl e
      | Inr v \<Rightarrow>
          average_timestamps_loop rest (seconds_total + sum_list (map seconds_of_timestamp ts))
            (dict_set sender v acc))"
  by (simp add: fold_seconds Let_def)

lemma average_timestamps_one_sender:
  "average_timestamps_in_seconds [(sender, ts)] =
     (case mean_seconds_spec ts of Inl e \<Rightarrow> Inl e | Inr v \<Rightarrow> Inr [(sender, v)])"
  by (simp add: average_timestamps_in_seconds_def mean_seconds_spec_def fold_seconds
      split: sum.splits)

text \<open>The weekday feature is computed per sender and stays between 0 and 6.\<close>

lemma dt_weekday_range: "0 \<le> dt_weekday t \<and> dt_weekday t \<le> 6"
  by (simp add: dt_weekday_def)

lemma py_round_bounds:
  assumes "0 \<le> x" and "x \<le> of_int b"
  shows "0 \<le> py_round x \<and> py_round x \<le> b"
proof -
  have f0: "0 \<le> \<lfloor>x\<rfloor>" using assms(1) by simp
  have fb: "\<lfloor>x\<rfloor> \<le> b" using assms(2) by (simp add: floor_le_iff)
  have up: "\<lfloor>x\<rfloor> + 1 \<le> b" if "1 / 2 \<le> x - of_int \<lfloor>x\<rfloor>"
  proof -
    have "of_int \<lfloor>x\<rfloor> < x" using that by linarith
    then have "(of_int \<lfloor>x\<rfloor> :: rat) < of_int b" using assms(2) by linarith
    then show ?thesis by simp
  qed
  show ?thesis
    using f0 fb up by (auto simp: py_round_def Let_def not_less)
qed

lemma sum_weekdays_range:
  "0 \<le> sum_list (map dt_weekday ts) \<and> sum_list (map dt_weekday ts) \<le> 6 * int (length ts)"
proof (induction ts)
  case Nil
  then show ?case by simp
next
  case (Cons t ts)
  then show ?case using dt_weekday_range [of t] by simp
qed

lemma weekday_mean_rounded:
  assumes "ts \<noteq> []"
  shows "\<exists>v. round_div (sum_list (map dt_weekday ts)) (int (length ts)) = Inr v
           \<and> 0 \<le> v \<and> v \<le> 6"
proof -
  let ?s = "sum_list (map dt_weekday ts)" and ?n = "int (length ts)"
  have n: "0 < ?n" using assms by simp
  have s: "0 \<le> ?s" "?s \<le> 6 * ?n" using sum_weekdays_range [of ts] by simp_all
  have "(of_int ?s :: rat) \<le> of_int (6 * ?n)" using s(2) by (simp only: of_int_le_iff)
  then have "(of_int ?s :: rat) / of_int ?n \<le> of_int 6"
    using n by (simp add: divide_le_eq)
  moreover have "0 \<le> (of_int ?s :: rat) / of_int ?n" using s(1) n by simp
  ultimately have "0 \<le> py_round (of_int ?s / of_int ?n) \<and> py_round (of_int ?s / of_int ?n) \<le> 6"
    by (rule py_round_bounds [rotated])
  then show ?thesis using n by (simp add: round_div_def)
qed

lemma list_all_dict_set:
  "Q v \<Longrightarrow> list_all (\<lambda>p. Q (snd p)) d \<Longrightarrow> list_all (\<lambda>p. Q (snd p)) (dict_set k v d)"
  by (induction d) auto

lemma weekday_average_loop_range:
  "list_all (\<lambda>p. snd p \<noteq> []) d \<Longrightarrow> list_all (\<lambda>p. 0 \<le> snd p \<and> snd p \<le> 6) acc
     \<Longrightarrow> \<exists>r. weekday_average_loop d acc = Inr r \<and> list_all (\<lambda>p. 0 \<le> snd p \<and> snd p \<le> 6) r"
proof (induction d arbitrary: acc)
  case Nil
  then show ?case by simp
next
  case (Cons p d)
  obtain sender ts where p: "p = (sender, ts)" by (cases p)
  have ts: "ts \<noteq> []" and d: "list_all (\<lambda>p. snd p \<noteq> []) d" using Cons.prems(1) by (simp_all add: p)
  from weekday_mean_rounded [OF ts] obtain v where
    v: "round_div (sum_list (map dt_weekday ts)) (int (length ts)) = Inr v" "0 \<le> v \<and> v \<le> 6"
    by blast
  have "list_all (\<lambda>p. 0 \<le> snd p \<and> snd p \<le> 6) (dict_set sender v acc)"
    using v(2) Cons.prems(2) by (rule list_all_dict_set [where Q = "\<lambda>v. 0 \<le> v \<and> v \<le> 6"])
  from Cons.IH [OF d this] show ?case by (simp add: p v(1))
qed

lemma weekday_average_range:
  "list_all (\<lambda>p. snd p \<noteq> []) datetimes_per_sender
     \<Longrightarrow> \<exists>r. weekday_average datetimes_per_sender = Inr r
           \<and> list_all (\<lambda>p. 0 \<le> snd p \<and> snd p \<le> 6) r"
  unfolding weekday_average_def by (rule weekday_average_loop_range) simp_all

text \<open>
  Claim C1 (fails on the code). With two senders, the second sender's value is computed
  from the running total of both: \<open>b\<close> mailed once, at 02:00:00, and gets 10800, the sum
  with \<open>a\<close>'s 01:00:00, where the rounded mean of its own timestamps is 7200.
\<close>

theorem average_timestamps_leak:
  "average_timestamps_in_seconds
     [(''a'', [at_time 1 0 0]), (''b'', [at_time 2 0 0])] = Inr [(''a'', 3600), (''b'', 10800)]
   \<and> mean_seconds_spec [at_time 2 0 0] = Inr 7200"
  by (simp add: average_timestamps_in_seconds_def mean_seconds_spec_def round_div_one
      seconds_of_timestamp_def at_time_def)

text \<open>
  Claim C2 (fails on the code). Two senders who each mailed once at 23:00:00: the second
  gets 165600 seconds since midnight, beyond the 86400 seconds of a day. The weekday
  feature of both is 0, within range.
\<close>

theorem average_timestamps_out_of_range:
  "average_timestamps_in_seconds
     [(''a'', [at_time 23 0 0]), (''b'', [at_time 23 0 0])] = Inr [(''a'', 82800), (''b'', 165600)]
   \<and> \<not> (165600 :: int) < 86400
   \<and> valid_time (at_time 23 0 0)
   \<and> weekday_average [(''a'', [at_time 23 0 0]), (''b'', [at_time 23 0 0])]
       = Inr [(''a'', 0), (''b'', 0)]"
  by (simp add: average_timestamps_in_seconds_def round_div_one seconds_of_timestamp_def
      at_time_def valid_time_def weekday_average_def dt_weekday_def toordinal_def
      days_before_year_def days_before_month_def is_leap_def)


section \<open>Mail parsing\<close>

subsection \<open>Dictionaries\<close>

lemma dict_get_counts_of: "dict_get (counts_of d) k 0 = length (dict_get d k [])"
  by (induction d) (auto simp: counts_of_def)

lemma dict_set_counts_of: "dict_set k (length v) (counts_of d) = counts_of (dict_set k v d)"
  by (induction d) (auto simp: counts_of_def)

lemma dict_incr_counts_of: "dict_incr k (counts_of d) = counts_of (dict_append k x d)"
  by (simp add: dict_incr_def dict_append_def dict_get_counts_of dict_set_counts_of [symmetric])

lemma keys_dict_set: "fst ` set (dict_set k v d) = insert k (fst ` set d)"
proof (induction d)
  case Nil
  then show ?case by simp
next
  case (Cons p d)
  obtain k' v' where p: "p = (k', v')" by (cases p)
  show ?case
  proof (cases "k = k'")
    case True
    then show ?thesis by (simp add: p)
  next
    case False
    then show ?thesis using Cons.IH by (simp add: p insert_commute)
  qed
qed

lemma distinct_dict_set: "distinct (map fst d) \<Longrightarrow> distinct (map fst (dict_set k v d))"
proof (induction d)
  case Nil
  then show ?case by simp
next
  case (Cons p d)
  obtain k' v' where p: "p = (k', v')" by (cases p)
  from Cons.prems have "k' \<notin> fst ` set d" and "distinct (map fst d)" by (simp_all add: p)
  then show ?case using Cons.IH by (auto simp: p keys_dict_set)
qed

lemma distinct_dict_append: "distinct (map fst d) \<Longrightarrow> distinct (map fst (dict_append k x d))"
  by (simp add: dict_append_def distinct_dict_set)

lemma keys_counts_of: "map fst (counts_of d) = map fst d"
  by (induction d) (auto simp: counts_of_def)

subsection \<open>The two loops keep counts and timestamp lists in step\<close>

lemma parse_mails_loop_counts:
  "parse_mails_loop strptime mail (counts_of d) d = Inr (m', d')
     \<Longrightarrow> m' = counts_of d'"
proof (induction mail arbitrary: d)
  case Nil
  then show ?case by auto
next
  case (Cons message mail)
  have step: "m' = counts_of d'"
    if "parse_mails_loop strptime mail (dict_incr a (counts_of d)) (dict_append a x d)
          = Inr (m', d')" for a x
    using that Cons.IH [of "dict_append a x d"] by (simp add: dict_incr_counts_of [of a d x])
  from Cons.prems show ?case
    by (auto split: option.splits sum.splits intro: Cons.IH step)
qed

lemma parse_mails_loop_distinct:
  "parse_mails_loop strptime mail m d = Inr (m', d') \<Longrightarrow> distinct (map fst d)
     \<Longrightarrow> distinct (map fst d')"
proof (induction mail arbitrary: m d)
  case Nil
  then show ?case by simp
next
  case (Cons message mail)
  then show ?case
    by (auto simp: distinct_dict_append split: option.splits sum.splits)
qed

lemma threshold_loop_counts:
  "threshold_loop ks (counts_of d) d T (counts_of wd) wd = (m', d')
     \<Longrightarrow> m' = counts_of d'"
proof (induction ks arbitrary: wd)
  case Nil
  then show ?case by auto
next
  case (Cons k ks)
  show ?case
  proof (cases "T \<le> int (dict_get (counts_of d) k 0)")
    case True
    have "dict_set k (dict_get (counts_of d) k 0) (counts_of wd)
            = counts_of (dict_set k (dict_get d k []) wd)"
      by (simp add: dict_get_counts_of dict_set_counts_of)
    with True Cons.prems Cons.IH [of "dict_set k (dict_get d k []) wd"] show ?thesis
      by simp
  next
    case False
    with Cons.prems Cons.IH [of wd] show ?thesis by simp
  qed
qed

lemma threshold_loop_distinct:
  "threshold_loop ks m d T wm wd = (m', d') \<Longrightarrow> distinct (map fst wd)
     \<Longrightarrow> distinct (map fst d')"
proof (induction ks arbitrary: wm wd)
  case Nil
  then show ?case by simp
next
  case (Cons k ks)
  then show ?case
    by (auto simp: distinct_dict_set split: if_splits)
qed

lemma parse_mails_counts:
  assumes "parse_mails strptime mail THRESHOLD = Inr (with_m, with_d)"
  shows "with_m = counts_of with_d \<and> distinct (map fst with_d)"
proof -
  from assms obtain m d where
    loop: "parse_mails_loop strptime mail [] [] = Inr (m, d)" and
    thr: "threshold_loop (map fst m) m d THRESHOLD [] [] = (with_m, with_d)"
    by (auto simp: parse_mails_def split: sum.splits)
  have "parse_mails_loop strptime mail (counts_of []) [] = Inr (m, d)"
    using loop by (simp add: counts_of_def)
  then have m: "m = counts_of d" by (rule parse_mails_loop_counts)
  have "threshold_loop (map fst m) (counts_of d) d THRESHOLD (counts_of []) [] = (with_m, with_d)"
    using thr m by (simp add: counts_of_def)
  then have "with_m = counts_of with_d" by (rule threshold_loop_counts)
  moreover have "distinct (map fst with_d)"
    using threshold_loop_distinct [OF thr] by simp
  ultimately show ?thesis by blast
qed

text \<open>
  Claim C10. Whenever \<open>parse_mails\<close> returns, its two dictionaries have the same keys
  (in the same order, each key once), and the count stored for a sender is the length
  of the timestamp list stored for it: the count dictionary is the timestamp
  dictionary with every list replaced by its length.
\<close>

theorem parse_mails_same_keys_and_counts:
  assumes "parse_mails strptime mail THRESHOLD = Inr (with_m, with_d)"
  shows "map fst with_m = map fst with_d
       \<and> set (map fst with_m) = set (map fst with_d)
       \<and> distinct (map fst with_m)
       \<and> with_m = map (\<lambda>(address, ts). (address, length ts)) with_d
       \<and> dict_get with_m address 0 = length (dict_get with_d address [])"
proof -
  have c: "with_m = counts_of with_d" and d: "distinct (map fst with_d)"
    using parse_mails_counts [OF assms] by simp_all
  show ?thesis
    using d by (simp add: c keys_counts_of dict_get_counts_of) (simp add: counts_of_def)
qed

theorem parse_mails_same_keys_and_counts_witness:
  "parse_mails any_match
     [\<lparr>From = Some ''X <x@a.org>'', Date = Some ''Mon, 5 Jun 2023 10:00:00 +0200''\<rparr>,
      \<lparr>From = Some ''y@b.org'', Date = Some ''5 Jun 2023 10:00''\<rparr>,
      \<lparr>From = Some ''X@A.org'', Date = Some ''5 Jun 2023 10:00''\<rparr>] 2
     = Inr ([(''x@a.org'', 2)], [(''x@a.org'', [at_time 10 0 0, at_time 10 0 0])])
   \<and> dict_get [(''x@a.org'', 2 :: nat)] ''x@a.org'' 0
       = length (dict_get [(''x@a.org'', [at_time 10 0 0, at_time 10 0 0])] ''x@a.org'' [])"
proof -
  have h: "parse_mails any_match
     [\<lparr>From = Some ''X <x@a.org>'', Date = Some ''Mon, 5 Jun 2023 10:00:00 +0200''\<rparr>,
      \<lparr>From = Some ''y@b.org'', Date = Some ''5 Jun 2023 10:00''\<rparr>,
      \<lparr>From = Some ''X@A.org'', Date = Some ''5 Jun 2023 10:00''\<rparr>] 2
     = Inr ([(''x@a.org'', 2)], [(''x@a.org'', [at_time 10 0 0, at_time 10 0 0])])"
    by code_simp
  show ?thesis
    using h parse_mails_same_keys_and_counts [OF h, of "''x@a.org''"] by blast
qed

subsection \<open>The sender address\<close>

text \<open>
  Claim C4 (fails on the code). In \<open>Bob<bob@x.org>\<close> the angle brackets are present and
  there is one \<open>@\<close>, but no blank precedes \<open><\<close>: \<open>find\<close> returns \<open>-1\<close>, the slice starts
  at index 1, and the message is counted under \<open>ob<bob@x.org\<close>, not under the text
  between the brackets, \<open>bob@x.org\<close>. With the blank the address is the bracketed one.
\<close>

theorem sender_address_without_blank:
  "sender_address ''Bob<bob@x.org>'' = Some ''ob<bob@x.org''
   \<and> sender_address ''Bob <bob@x.org>'' = Some ''bob@x.org''
   \<and> parse_mails any_match
       [\<lparr>From = Some ''Bob<bob@x.org>'', Date = Some ''Mon, 5 Jun 2023 10:00:00 +0200''\<rparr>] 1
       = Inr ([(''ob<bob@x.org'', 1)], [(''ob<bob@x.org'', [at_time 10 0 0])])"
  by code_simp

subsection \<open>Dates that match no pattern\<close>

lemma try_formats_none:
  "(\<forall>f \<in> set fs. strptime datum f = None) \<Longrightarrow> try_formats strptime datum fs = Inl ValueError"
  by (induction fs) auto

lemma try_formats_error: "try_formats strptime datum fs = Inl e \<Longrightarrow> e = ValueError"
  by (induction fs) (auto split: option.splits)

lemma parse_datetime_error: "parse_datetime strptime datum = Inl e \<Longrightarrow> e = ValueError"
  by (auto simp: parse_datetime_def strip_offset_def try_formats_error
      split: sum.splits if_splits list.splits)

lemma parse_mails_loop_raises:
  assumes "message \<in> set mail"
    and "From message = Some sender" and "Date message = Some datum"
    and "sender_address sender = Some a"
    and "parse_datetime strptime (date_string_of datum) = Inl e"
  shows "parse_mails_loop strptime mail m d = Inl ValueError"
  using assms(1)
proof (induction mail arbitrary: m d)
  case Nil
  then show ?case by simp
next
  case (Cons x mail)
  show ?case
  proof (cases "x = message")
    case True
    have "e = ValueError" using assms(5) by (rule parse_datetime_error)
    then show ?thesis using True assms(2-5) by simp
  next
    case False
    then have "message \<in> set mail" using Cons.prems by simp
    then have "\<And>m d. parse_mails_loop strptime mail m d = Inl ValueError" by (rule Cons.IH)
    then show ?thesis
      by (auto split: option.splits sum.splits dest: parse_datetime_error)
  qed
qed

text \<open>
  The order of the loop body: a message without both headers, or whose sender string
  does not hold exactly one \<open>@\<close>, is passed over before anything is done with its date.
\<close>

lemma parse_mails_loop_skip:
  assumes "From message = None \<or> Date message = None
           \<or> (\<exists>sender. From message = Some sender \<and> sender_address sender = None)"
  shows "parse_mails_loop strptime (message # mail) m d = parse_mails_loop strptime mail m d"
  using assms by (auto split: option.splits)

text \<open>
  Claim C9. If a message whose date is parsed at all (it has both headers and a sender
  string with exactly one \<open>@\<close>, so that \<open>sender_address\<close> yields an address) has a date
  string that, stripped of its offset, matches none of the four patterns, then
  \<open>parse_mails\<close> raises the error of \<open>parse_datetime\<close>: whatever the other messages and
  the threshold are, nothing is returned and the message is not skipped.
\<close>

theorem parse_mails_date_error:
  assumes "message \<in> set mail"
    and "From message = Some sender" and "Date message = Some datum"
    and "sender_address sender = Some a"
    and "strip_offset (date_string_of datum) = Inr stripped"
    and "\<forall>f \<in> set format_strings. strptime stripped f = None"
  shows "parse_mails strptime mail THRESHOLD = Inl ValueError"
proof -
  have "parse_datetime strptime (date_string_of datum) = Inl ValueError"
    using assms(5,6) by (simp add: parse_datetime_def try_formats_none)
  with assms(1-4) have "parse_mails_loop strptime mail [] [] = Inl ValueError"
    by (rule parse_mails_loop_raises)
  then show ?thesis by (simp add: parse_mails_def)
qed

text \<open>
  A run of two messages: the first parses, and on its own the run returns; the date of
  the second matches no pattern, and the run of both raises.
\<close>

theorem parse_mails_date_error_witness:
  "\<lparr>From = Some ''a@b.org'', Date = Some ''yesterday at 10:00:00 +0200''\<rparr>
     \<in> set [\<lparr>From = Some ''c@d.org'', Date = Some ''5 Jun 2023 10:00''\<rparr>,
            \<lparr>From = Some ''a@b.org'', Date = Some ''yesterday at 10:00:00 +0200''\<rparr>]
   \<and> sender_address ''a@b.org'' = Some ''a@b.org''
   \<and> strip_offset (date_string_of ''yesterday at 10:00:00 +0200'') = Inr ''yesterday at 10:00:00''
   \<and> list_all (\<lambda>f. short_format_only ''yesterday at 10:00:00'' f = None) format_strings
   \<and> parse_mails short_format_only
       [\<lparr>From = Some ''c@d.org'', Date = Some ''5 Jun 2023 10:00''\<rparr>] 1
       = Inr ([(''c@d.org'', 1)], [(''c@d.org'', [at_time 10 0 0])])
   \<and> parse_mails short_format_only
       [\<lparr>From = Some ''c@d.org'', Date = Some ''5 Jun 2023 10:00''\<rparr>,
        \<lparr>From = Some ''a@b.org'', Date = Some ''yesterday at 10:00:00 +0200''\<rparr>] 1
       = Inl ValueError"
proof -
  let ?m = "\<lparr>From = Some ''a@b.org'', Date = Some ''yesterday at 10:00:00 +0200''\<rparr>"
  let ?mail = "[\<lparr>From = Some ''c@d.org'', Date = Some ''5 Jun 2023 10:00''\<rparr>, ?m]"
  have 1: "?m \<in> set ?mail" by simp
  have 2: "From ?m = Some ''a@b.org''" and 3: "Date ?m = Some ''yesterday at 10:00:00 +0200''"
    by simp_all
  have 4: "sender_address ''a@b.org'' = Some ''a@b.org''" by code_simp
  have 5: "strip_offset (date_string_of ''yesterday at 10:00:00 +0200'') = Inr ''yesterday at 10:00:00''"
    by code_simp
  have 6: "\<forall>f \<in> set format_strings. short_format_only ''yesterday at 10:00:00'' f = None"
    by (simp add: short_format_only_def)
  have 7: "list_all (\<lambda>f. short_format_only ''yesterday at 10:00:00'' f = None) format_strings"
    using 6 by (simp add: list_all_iff)
  have 8: "parse_mails short_format_only
       [\<lparr>From = Some ''c@d.org'', Date = Some ''5 Jun 2023 10:00''\<rparr>] 1
       = Inr ([(''c@d.org'', 1)], [(''c@d.org'', [at_time 10 0 0])])"
    by code_simp
  show ?thesis
    using 1 4 5 7 8
      parse_mails_date_error [where strptime = short_format_only and THRESHOLD = 1,
        OF 1 2 3 4 5 6]
    by blast
qed


section \<open>Connected components\<close>

subsection \<open>The nodes reached from a node\<close>

lemma set_expand:
  "set (expand g S) = {w. w < length g \<and> (w \<in> set S \<or> (\<exists>v \<in> set S. edge g v w))}"
  by (auto simp: expand_def list_ex_iff)

lemma expand_bounded: "set (expand g S) \<subseteq> {..<length g}"
  by (auto simp: set_expand)

lemma expand_mono: "set S \<subseteq> {..<length g} \<Longrightarrow> set S \<subseteq> set (expand g S)"
  by (auto simp: set_expand)

lemma expand_cong: "set S = set T \<Longrightarrow> expand g S = expand g T"
  by (simp add: expand_def list_ex_iff)

lemma closure_bounded: "set S \<subseteq> {..<length g} \<Longrightarrow> set (closure g k S) \<subseteq> {..<length g}"
  by (induction k arbitrary: S) (simp_all add: expand_bounded)

lemma expand_sound:
  assumes "set S \<subseteq> {..<length g}" and "set S \<subseteq> (links g)\<^sup>* `` {v}"
  shows "set (expand g S) \<subseteq> (links g)\<^sup>* `` {v}"
proof
  fix w assume "w \<in> set (expand g S)"
  then have w: "w < length g" and cases: "w \<in> set S \<or> (\<exists>u \<in> set S. edge g u w)"
    by (simp_all add: set_expand)
  from cases show "w \<in> (links g)\<^sup>* `` {v}"
  proof
    assume "w \<in> set S"
    then show ?thesis using assms(2) by blast
  next
    assume "\<exists>u \<in> set S. edge g u w"
    then obtain u where u: "u \<in> set S" "edge g u w" by blast
    then have "(u, w) \<in> links g" using assms(1) w by (auto simp: links_def)
    moreover have "(v, u) \<in> (links g)\<^sup>*" using assms(2) u(1) by blast
    ultimately show ?thesis by (auto intro: rtrancl_into_rtrancl)
  qed
qed

lemma closure_sound:
  "set S \<subseteq> {..<length g} \<Longrightarrow> set S \<subseteq> (links g)\<^sup>* `` {v}
     \<Longrightarrow> set (closure g k S) \<subseteq> (links g)\<^sup>* `` {v}"
  by (induction k arbitrary: S) (simp_all add: expand_bounded expand_sound)

lemma closure_fixed:
  "set (expand g S) = set S
     \<Longrightarrow> set (closure g k S) = set S \<and> set (expand g (closure g k S)) = set (closure g k S)"
proof (induction k arbitrary: S)
  case 0
  then show ?case by simp
next
  case (Suc k)
  have "expand g (expand g S) = expand g S" using Suc.prems by (rule expand_cong)
  then have "set (expand g (expand g S)) = set (expand g S)" by simp
  from Suc.IH [OF this] show ?case using Suc.prems by simp
qed

lemma closure_fixed_or_grows:
  "set S \<subseteq> {..<length g}
     \<Longrightarrow> set (expand g (closure g k S)) = set (closure g k S)
         \<or> card (set S) + k \<le> card (set (closure g k S))"
proof (induction k arbitrary: S)
  case 0
  then show ?case by simp
next
  case (Suc k)
  show ?case
  proof (cases "set (expand g S) = set S")
    case True
    then show ?thesis using closure_fixed [of g S "Suc k"] by blast
  next
    case False
    then have "set S \<subset> set (expand g S)" using expand_mono [OF Suc.prems] by blast
    then have "card (set S) < card (set (expand g S))" by (simp add: psubset_card_mono)
    moreover have "set (expand g (closure g k (expand g S))) = set (closure g k (expand g S))
                    \<or> card (set (expand g S)) + k \<le> card (set (closure g k (expand g S)))"
      by (rule Suc.IH) (rule expand_bounded)
    ultimately show ?thesis by auto
  qed
qed

lemma component_fixed:
  assumes "v < length g"
  shows "set (expand g (component g v)) = set (component g v)"
proof -
  have b: "set [v] \<subseteq> {..<length g}" using assms by simp
  have "set (closure g (length g) [v]) \<subseteq> {..<length g}" using b by (rule closure_bounded)
  then have "card (set (closure g (length g) [v])) \<le> card {..<length g}"
    by (intro card_mono) simp_all
  then have "\<not> card (set [v]) + length g \<le> card (set (closure g (length g) [v]))" by simp
  then show ?thesis using closure_fixed_or_grows [OF b, of "length g"] by (simp add: component_def)
qed

lemma closure_mono: "set S \<subseteq> {..<length g} \<Longrightarrow> set S \<subseteq> set (closure g k S)"
proof (induction k arbitrary: S)
  case 0
  then show ?case by simp
next
  case (Suc k)
  have "set (expand g S) \<subseteq> set (closure g k (expand g S))"
    by (rule Suc.IH) (rule expand_bounded)
  then show ?case using expand_mono [OF Suc.prems] by auto
qed

lemma set_component:
  assumes "v < length g"
  shows "set (component g v) = (links g)\<^sup>* `` {v}"
proof
  show "set (component g v) \<subseteq> (links g)\<^sup>* `` {v}"
    unfolding component_def using assms by (intro closure_sound) simp_all
next
  have v: "v \<in> set (component g v)"
    unfolding component_def using closure_mono [of "[v]" g "length g"] assms by simp
  have bounded: "set (component g v) \<subseteq> {..<length g}"
    unfolding component_def using assms by (intro closure_bounded) simp
  have step: "w \<in> set (component g v)" if "u \<in> set (component g v)" "(u, w) \<in> links g" for u w
  proof -
    have "w < length g" "edge g u w" using that(2) by (simp_all add: links_def)
    then have "w \<in> set (expand g (component g v))" using that(1) by (auto simp: set_expand)
    then show ?thesis using component_fixed [OF assms] by simp
  qed
  have "w \<in> set (component g v)" if "(v, w) \<in> (links g)\<^sup>*" for w
    using that by (induction rule: rtrancl_induct) (auto intro: v step)
  then show "(links g)\<^sup>* `` {v} \<subseteq> set (component g v)" by blast
qed

lemma sym_links: "sym (links g)"
  by (auto simp: sym_def links_def edge_def)

lemma links_sym: "(v, w) \<in> (links g)\<^sup>* \<Longrightarrow> (w, v) \<in> (links g)\<^sup>*"
  using sym_rtrancl [OF sym_links] by (auto dest: symD)

lemma links_bounded: "(v, w) \<in> (links g)\<^sup>* \<Longrightarrow> v < length g \<Longrightarrow> w < length g"
  by (induction rule: rtrancl_induct) (auto simp: links_def)

subsection \<open>The labelling loop\<close>

lemma length_fill: "length (fill ws l labels) = length labels"
  unfolding fill_def by (induction ws arbitrary: labels) simp_all

lemma nth_fill:
  "i < length labels \<Longrightarrow> fill ws l labels ! i = (if i \<in> set ws then l else labels ! i)"
  unfolding fill_def
proof (induction ws arbitrary: labels)
  case Nil
  then show ?case by simp
next
  case (Cons w ws)
  have "fold (\<lambda>w ls. ls[w := l]) ws (labels[w := l]) ! i
          = (if i \<in> set ws then l else labels[w := l] ! i)"
    by (rule Cons.IH) (simp add: Cons.prems)
  then show ?case using Cons.prems by (auto simp: nth_list_update)
qed

lemma labelled_ok_skip:
  assumes "labelled_ok g P labels label" and "v < length g" and "labels ! v \<noteq> VOID"
  shows "labelled_ok g (insert v P) labels label"
proof -
  have lab: "(labels ! w \<noteq> VOID) = (\<exists>u \<in> P. (u, w) \<in> (links g)\<^sup>*)" if "w < length g" for w
    using assms(1) that by (simp add: labelled_ok_def)
  have "(labels ! w \<noteq> VOID) = (\<exists>u \<in> insert v P. (u, w) \<in> (links g)\<^sup>*)" if w: "w < length g" for w
  proof
    assume "labels ! w \<noteq> VOID"
    then show "\<exists>u \<in> insert v P. (u, w) \<in> (links g)\<^sup>*" using lab [OF w] by blast
  next
    assume "\<exists>u \<in> insert v P. (u, w) \<in> (links g)\<^sup>*"
    then obtain u where u: "u \<in> insert v P" "(u, w) \<in> (links g)\<^sup>*" by blast
    show "labels ! w \<noteq> VOID"
    proof (cases "u = v")
      case True
      obtain x where "x \<in> P" "(x, v) \<in> (links g)\<^sup>*" using lab [OF assms(2)] assms(3) by blast
      then have "x \<in> P" "(x, w) \<in> (links g)\<^sup>*" using u(2) True by auto
      then show ?thesis using lab [OF w] by blast
    next
      case False
      then show ?thesis using u lab [OF w] by blast
    qed
  qed
  then show ?thesis using assms(1) by (simp add: labelled_ok_def)
qed

lemma labelled_ok_fill:
  assumes "labelled_ok g P labels label" and v: "v < length g" and void: "labels ! v = VOID"
  shows "labelled_ok g (insert v P) (fill (component g v) label labels) (label + 1)"
proof -
  have len: "length labels = length g" and pos: "0 \<le> label"
    using assms(1) by (simp_all add: labelled_ok_def)
  have range: "labels ! w = VOID \<or> (0 \<le> labels ! w \<and> labels ! w < label)"
    if "w < length g" for w
    using assms(1) that by (simp add: labelled_ok_def)
  have lab: "(labels ! w \<noteq> VOID) = (\<exists>u \<in> P. (u, w) \<in> (links g)\<^sup>*)" if "w < length g" for w
    using assms(1) that by (simp add: labelled_ok_def)
  have same: "(labels ! w = labels ! w') = ((w, w') \<in> (links g)\<^sup>*)"
    if "w < length g" "w' < length g" "labels ! w \<noteq> VOID" "labels ! w' \<noteq> VOID" for w w'
    using assms(1) that by (simp add: labelled_ok_def)
  define L where "L = fill (component g v) label labels"
  have nth: "L ! w = (if (v, w) \<in> (links g)\<^sup>* then label else labels ! w)"
    if "w < length g" for w
    using that by (simp add: L_def nth_fill len set_component [OF v])
  have nv: "label \<noteq> VOID" using pos by (simp add: VOID_def)
  have fresh: "labels ! w = VOID" if w: "w < length g" and vw: "(v, w) \<in> (links g)\<^sup>*" for w
  proof (rule ccontr)
    assume "labels ! w \<noteq> VOID"
    then obtain u where u: "u \<in> P" "(u, w) \<in> (links g)\<^sup>*" using lab [OF w] by blast
    have "(w, v) \<in> (links g)\<^sup>*" using vw by (rule links_sym)
    then have "(u, v) \<in> (links g)\<^sup>*" using u(2) by auto
    then show False using lab [OF v] u(1) void by blast
  qed
  have c1: "length L = length g" by (simp add: L_def length_fill len)
  have c2: "0 \<le> label + 1" using pos by simp
  have c3: "L ! w = VOID \<or> (0 \<le> L ! w \<and> L ! w < label + 1)" if "w < length g" for w
    using range [OF that] pos by (auto simp: nth [OF that])
  have c4: "(L ! w \<noteq> VOID) = (\<exists>u \<in> insert v P. (u, w) \<in> (links g)\<^sup>*)" if w: "w < length g" for w
  proof (cases "(v, w) \<in> (links g)\<^sup>*")
    case True
    then show ?thesis using nv by (auto simp: nth [OF w])
  next
    case False
    then show ?thesis using lab [OF w] by (auto simp: nth [OF w])
  qed
  have c5: "(L ! w = L ! w') = ((w, w') \<in> (links g)\<^sup>*)"
    if w: "w < length g" and w': "w' < length g" and "L ! w \<noteq> VOID" and "L ! w' \<noteq> VOID" for w w'
  proof (cases "(v, w) \<in> (links g)\<^sup>*")
    case vw: True
    show ?thesis
    proof (cases "(v, w') \<in> (links g)\<^sup>*")
      case True
      have "(w, v) \<in> (links g)\<^sup>*" using vw by (rule links_sym)
      then have "(w, w') \<in> (links g)\<^sup>*" using True by auto
      then show ?thesis using vw True by (simp add: nth [OF w] nth [OF w'])
    next
      case False
      then have "(w, w') \<notin> (links g)\<^sup>*" using vw by (auto dest: rtrancl_trans)
      moreover have "labels ! w' \<noteq> VOID" using that(4) False by (simp add: nth [OF w'])
      then have "labels ! w' < label" using range [OF w'] by blast
      ultimately show ?thesis using vw False by (simp add: nth [OF w] nth [OF w'])
    qed
  next
    case nvw: False
    have lw: "labels ! w \<noteq> VOID" using that(3) nvw by (simp add: nth [OF w])
    show ?thesis
    proof (cases "(v, w') \<in> (links g)\<^sup>*")
      case True
      have "(w, w') \<notin> (links g)\<^sup>*"
      proof
        assume "(w, w') \<in> (links g)\<^sup>*"
        then have "(w', w) \<in> (links g)\<^sup>*" by (rule links_sym)
        then have "(v, w) \<in> (links g)\<^sup>*" using True by auto
        then show False using nvw by simp
      qed
      moreover have "labels ! w < label" using range [OF w] lw by blast
      ultimately show ?thesis using nvw True by (simp add: nth [OF w] nth [OF w'])
    next
      case False
      then have "labels ! w' \<noteq> VOID" using that(4) by (simp add: nth [OF w'])
      then show ?thesis using same [OF w w' lw] nvw False by (simp add: nth [OF w] nth [OF w'])
    qed
  qed
  show ?thesis
    unfolding labelled_ok_def L_def [symmetric] using c1 c2 c3 c4 c5 by blast
qed

lemma label_nodes_ok:
  "labelled_ok g P labels label \<Longrightarrow> set vs \<subseteq> {..<length g}
     \<Longrightarrow> \<exists>label'. labelled_ok g (P \<union> set vs) (label_nodes g vs labels label) label'"
proof (induction vs arbitrary: P labels label)
  case Nil
  then show ?case by auto
next
  case (Cons v vs)
  have v: "v < length g" and vs: "set vs \<subseteq> {..<length g}" using Cons.prems(2) by simp_all
  have un: "P \<union> set (v # vs) = insert v P \<union> set vs" by simp
  show ?case
  proof (cases "labels ! v = VOID")
    case True
    have "labelled_ok g (insert v P) (fill (component g v) label labels) (label + 1)"
      using Cons.prems(1) v True by (rule labelled_ok_fill)
    from Cons.IH [OF this vs] show ?thesis unfolding un using True by simp
  next
    case False
    have "labelled_ok g (insert v P) labels label"
      using Cons.prems(1) v False by (rule labelled_ok_skip)
    from Cons.IH [OF this vs] show ?thesis unfolding un using False by simp
  qed
qed

lemma connected_components_labels:
  assumes "square g"
  shows "\<exists>labels. connected_components g = Inr labels \<and> length labels = length g
           \<and> (\<forall>i j. i < length g \<longrightarrow> j < length g
                 \<longrightarrow> (labels ! i = labels ! j) = ((i, j) \<in> (links g)\<^sup>*))"
proof -
  define labels where
    "labels = label_nodes g [0..<length g] (replicate (length g) VOID) 0"
  have init: "labelled_ok g {} (replicate (length g) VOID) 0" by (simp add: labelled_ok_def)
  have sub: "set [0..<length g] \<subseteq> {..<length g}" by auto
  from label_nodes_ok [OF init sub]
  obtain label' where "labelled_ok g ({} \<union> set [0..<length g]) labels label'"
    unfolding labels_def by blast
  then have ok: "labelled_ok g {..<length g} labels label'" by (simp add: atLeast0LessThan)
  have len: "length labels = length g" using ok by (simp add: labelled_ok_def)
  have lab: "labels ! w \<noteq> VOID" if "w < length g" for w
  proof -
    have "w \<in> {..<length g}" "(w, w) \<in> (links g)\<^sup>*" using that by simp_all
    then have "\<exists>u \<in> {..<length g}. (u, w) \<in> (links g)\<^sup>*" by blast
    then show ?thesis using ok that by (simp add: labelled_ok_def)
  qed
  have "(labels ! i = labels ! j) = ((i, j) \<in> (links g)\<^sup>*)"
    if "i < length g" "j < length g" for i j
    using ok that lab [OF that(1)] lab [OF that(2)] by (simp add: labelled_ok_def)
  moreover have "connected_components g = Inr labels"
    using assms by (simp add: connected_components_def labels_def)
  ultimately show ?thesis using len by blast
qed

subsection \<open>Thresholding\<close>

lemma length_threshold: "length (threshold epsilon m) = length m"
  by (simp add: threshold_def)

lemma square_nth: "square m \<Longrightarrow> i < length m \<Longrightarrow> length (m ! i) = length m"
  by (simp add: square_def list_all_length)

lemma square_threshold: "square (threshold epsilon m) = square m"
  by (simp add: square_def threshold_def list_all_length)

lemma threshold_nth:
  "square m \<Longrightarrow> i < length m \<Longrightarrow> j < length m
     \<Longrightarrow> threshold epsilon m ! i ! j = (if m ! i ! j \<le> epsilon then 1 else 0)"
  by (simp add: threshold_def square_nth)

lemma links_threshold: "square m \<Longrightarrow> links (threshold epsilon m) = close_pairs m epsilon"
  by (auto simp: links_def close_pairs_def edge_def length_threshold threshold_nth
      split: if_splits)

lemma close_pairs_symmetric:
  "symmetric m \<Longrightarrow>
     close_pairs m epsilon = {(i, j). i < length m \<and> j < length m \<and> m ! i ! j \<le> epsilon}"
  by (auto simp: close_pairs_def symmetric_def)

lemma square_not_zero_sized: "square m \<Longrightarrow> m \<noteq> [] \<Longrightarrow> \<not> zero_sized m"
  by (cases m) (auto simp: square_def zero_sized_def)

lemma threshold_zero_sized: "zero_sized m \<Longrightarrow> threshold epsilon m = m"
  unfolding zero_sized_def threshold_def by (induction m) auto

subsection \<open>The grouping loop\<close>

lemma dict_get_dict_set:
  "dict_get (dict_set k v d) l dflt = (if l = k then v else dict_get d l dflt)"
  by (induction d) auto

lemma dict_get_dict_append:
  "dict_get (dict_append k x d) l [] = (if l = k then dict_get d k [] @ [x] else dict_get d l [])"
  by (simp add: dict_append_def dict_get_dict_set)

lemma mset_dict_append:
  "mset (concat (map snd (dict_append k x d))) = mset (concat (map snd d)) + {#x#}"
  by (induction d) (auto simp: dict_append_def)

lemma nonempty_dict_set:
  "v \<noteq> [] \<Longrightarrow> [] \<notin> snd ` set d \<Longrightarrow> [] \<notin> snd ` set (dict_set k v d)"
proof (induction d)
  case Nil
  then show ?case by simp
next
  case (Cons p d)
  obtain k' v' where p: "p = (k', v')" by (cases p)
  from Cons.prems have "v' \<noteq> []" and "[] \<notin> snd ` set d" by (auto simp: p)
  then show ?case using Cons.IH Cons.prems(1) by (auto simp: p)
qed

lemma nonempty_dict_append:
  "[] \<notin> snd ` set d \<Longrightarrow> [] \<notin> snd ` set (dict_append k x d)"
  unfolding dict_append_def by (rule nonempty_dict_set) simp_all

lemma group_loop_returns:
  "list_all (\<lambda>p. fst p < length dps \<and> fst p < length ids) pairs
     \<Longrightarrow> \<exists>cdp' cid'. group_loop pairs dps ids cdp cid = Inr (cdp', cid')"
  by (induction pairs dps ids cdp cid rule: group_loop.induct) auto

lemma group_loop_identifiers:
  "group_loop pairs dps ids cdp cid = Inr (cdp', cid')
     \<Longrightarrow> dict_get cid' l [] =
           dict_get cid l [] @ map (\<lambda>p. ids ! fst p) (filter (\<lambda>p. snd p = l) pairs)"
  by (induction pairs dps ids cdp cid rule: group_loop.induct)
    (auto simp: dict_get_dict_append split: if_splits)

lemma group_loop_data_points:
  "group_loop pairs dps ids cdp cid = Inr (cdp', cid')
     \<Longrightarrow> dict_get cdp' l [] =
           dict_get cdp l [] @ map (\<lambda>p. dps ! fst p) (filter (\<lambda>p. snd p = l) pairs)"
  by (induction pairs dps ids cdp cid rule: group_loop.induct)
    (auto simp: dict_get_dict_append split: if_splits)

lemma group_loop_mset:
  "group_loop pairs dps ids cdp cid = Inr (cdp', cid')
     \<Longrightarrow> mset (concat (map snd cid')) =
           mset (concat (map snd cid)) + mset (map (\<lambda>p. ids ! fst p) pairs)"
  by (induction pairs dps ids cdp cid rule: group_loop.induct)
    (auto simp: mset_dict_append split: if_splits)

lemma group_loop_distinct:
  "group_loop pairs dps ids cdp cid = Inr (cdp', cid') \<Longrightarrow> distinct (map fst cid)
     \<Longrightarrow> distinct (map fst cid')"
  by (induction pairs dps ids cdp cid rule: group_loop.induct)
    (auto simp: distinct_dict_append split: if_splits)

lemma group_loop_nonempty:
  "group_loop pairs dps ids cdp cid = Inr (cdp', cid') \<Longrightarrow> [] \<notin> snd ` set cid
     \<Longrightarrow> [] \<notin> snd ` set cid'"
  by (induction pairs dps ids cdp cid rule: group_loop.induct)
    (auto simp: nonempty_dict_append split: if_splits)

lemma enumerate_nth_map: "enumerate 0 xs = map (\<lambda>k. (k, xs ! k)) [0..<length xs]"
  by (rule nth_equalityI) (simp_all add: nth_enumerate_eq)

lemma enumerate_all: "map (\<lambda>p. ys ! fst p) (enumerate 0 xs) = take (length xs) ys"
  if "length xs \<le> length ys"
  using that by (intro nth_equalityI) (simp_all add: nth_enumerate_eq)

lemma enumerate_label:
  "map (\<lambda>p. ys ! fst p) (filter (\<lambda>p. snd p = l) (enumerate 0 xs))
     = map ((!) ys) (filter (\<lambda>k. xs ! k = l) [0..<length xs])"
  by (simp add: enumerate_nth_map filter_map o_def)

lemma unique_component:
  "distinct (concat (map snd cid)) \<Longrightarrow> c \<in> set cid \<Longrightarrow> c' \<in> set cid
     \<Longrightarrow> x \<in> set (snd c) \<Longrightarrow> x \<in> set (snd c') \<Longrightarrow> c = c'"
  by (induction cid) auto

lemma obtain_connected_components_result:
  assumes sq: "square (dperm2all persistence)"
    and ne: "dperm2all persistence \<noteq> []"
    and n: "length (dperm2all persistence) = length identifiers"
    and dn: "length data_points = length identifiers"
  shows "\<exists>labels cdp cid.
           connected_components (threshold epsilon (dperm2all persistence)) = Inr labels
         \<and> length labels = length identifiers
         \<and> (\<forall>i j. i < length identifiers \<longrightarrow> j < length identifiers
               \<longrightarrow> (labels ! i = labels ! j)
                    = ((i, j) \<in> (close_pairs (dperm2all persistence) epsilon)\<^sup>*))
         \<and> snd (obtain_connected_components (data_points, identifiers) persistence epsilon)
             = Inr (cdp, cid)
         \<and> group_loop (enumerate 0 labels) data_points identifiers [] [] = Inr (cdp, cid)"
proof -
  let ?g = "threshold epsilon (dperm2all persistence)"
  have "square ?g" using sq by (simp add: square_threshold)
  from connected_components_labels [OF this] obtain labels where
    cc: "connected_components ?g = Inr labels" and len: "length labels = length ?g"
    and same: "\<forall>i j. i < length ?g \<longrightarrow> j < length ?g
                 \<longrightarrow> (labels ! i = labels ! j) = ((i, j) \<in> (links ?g)\<^sup>*)"
    by blast
  have len': "length labels = length identifiers" using len n by (simp add: length_threshold)
  have "list_all (\<lambda>p. fst p < length data_points \<and> fst p < length identifiers)
          (enumerate 0 labels)"
    by (auto simp: list_all_iff in_set_enumerate_eq len' dn)
  from group_loop_returns [OF this] obtain cdp cid where
    gl: "group_loop (enumerate 0 labels) data_points identifiers [] [] = Inr (cdp, cid)"
    by blast
  have "snd (obtain_connected_components (data_points, identifiers) persistence epsilon)
          = Inr (cdp, cid)"
    using square_not_zero_sized [OF sq ne]
    by (simp add: obtain_connected_components_def cc len' dn gl)
  moreover have "\<forall>i j. i < length identifiers \<longrightarrow> j < length identifiers
      \<longrightarrow> (labels ! i = labels ! j) = ((i, j) \<in> (close_pairs (dperm2all persistence) epsilon)\<^sup>*)"
    using same by (simp add: length_threshold n links_threshold [OF sq])
  ultimately show ?thesis using cc len' gl by blast
qed

text \<open>
  Claim C3 (fails on the code). After the call on the matrix of scenario C with
  \<open>epsilon = 0.6\<close> the persistence data holds the matrix of zeros and ones, not the
  distances it held before.
\<close>

theorem distance_matrix_mutated:
  "dperm2all (fst (obtain_connected_components
      ([[0], [1], [2]], [''0'', ''1'', ''2'']) \<lparr>dperm2all = scenario_c\<rparr> 0.6))
     = [[1, 1, 0], [1, 1, 0], [0, 0, 1]]
   \<and> dperm2all (fst (obtain_connected_components
      ([[0], [1], [2]], [''0'', ''1'', ''2'']) \<lparr>dperm2all = scenario_c\<rparr> 0.6))
     \<noteq> dperm2all \<lparr>dperm2all = scenario_c\<rparr>"
  by code_simp

text \<open>
  Claim C3, amended. The call overwrites the distance matrix of the persistence data in
  place: afterwards every entry is 1 where the distance was at most \<open>epsilon\<close> and 0
  elsewhere, whether the call returns or raises, and the matrix keeps its shape.
\<close>

theorem distance_matrix_overwritten:
  "dperm2all (fst (obtain_connected_components data_collection persistence epsilon))
     = map (map (\<lambda>element. if element \<le> epsilon then 1 else 0)) (dperm2all persistence)
   \<and> length (dperm2all (fst (obtain_connected_components data_collection persistence epsilon)))
     = length (dperm2all persistence)"
proof (cases "zero_sized (dperm2all persistence)")
  case True
  have "map (map (\<lambda>element. if element \<le> epsilon then 1 else 0)) (dperm2all persistence)
          = dperm2all persistence"
    using threshold_zero_sized [OF True, of epsilon] by (simp add: threshold_def)
  then show ?thesis using True by (simp add: obtain_connected_components_def Let_def)
next
  case False
  then show ?thesis by (simp add: obtain_connected_components_def Let_def threshold_def)
qed

text \<open>
  Claim C5. For a square distance matrix of at least one point, with as many rows as
  there are identifiers (and data points), and every \<open>epsilon\<close>, the call returns, and
  the components partition the identifiers: the sizes of the components add up to the
  number of identifiers, the members of all components together are the identifiers,
  each as often as it is listed, no component is empty and no label occurs twice. With
  pairwise different identifiers, each identifier is in exactly one component.
\<close>

theorem components_partition_identifiers:
  assumes "square (dperm2all persistence)"
    and "dperm2all persistence \<noteq> []"
    and "length (dperm2all persistence) = length identifiers"
    and "length data_points = length identifiers"
  shows "\<exists>cdp cid.
           snd (obtain_connected_components (data_points, identifiers) persistence epsilon)
             = Inr (cdp, cid)
         \<and> sum_list (map (\<lambda>c. length (snd c)) cid) = length identifiers
         \<and> mset (concat (map snd cid)) = mset identifiers
         \<and> distinct (map fst cid)
         \<and> [] \<notin> snd ` set cid
         \<and> (distinct identifiers
              \<longrightarrow> (\<forall>x \<in> set identifiers. \<exists>!c. c \<in> set cid \<and> x \<in> set (snd c)))"
proof -
  from obtain_connected_components_result [OF assms, of epsilon] obtain labels cdp cid where
    len: "length labels = length identifiers"
    and res: "snd (obtain_connected_components (data_points, identifiers) persistence epsilon)
                = Inr (cdp, cid)"
    and gl: "group_loop (enumerate 0 labels) data_points identifiers [] [] = Inr (cdp, cid)"
    by blast
  have "mset (map (\<lambda>p. identifiers ! fst p) (enumerate 0 labels)) = mset identifiers"
    using enumerate_all [of labels identifiers] len by simp
  then have m: "mset (concat (map snd cid)) = mset identifiers"
    using group_loop_mset [OF gl] by simp
  have "length (concat (map snd cid)) = length identifiers"
    using m by (rule mset_eq_length)
  then have s: "sum_list (map (\<lambda>c. length (snd c)) cid) = length identifiers"
    by (simp add: length_concat o_def)
  have d: "distinct (map fst cid)" using group_loop_distinct [OF gl] by simp
  have e: "[] \<notin> snd ` set cid" using group_loop_nonempty [OF gl] by simp
  have u: "distinct identifiers
             \<longrightarrow> (\<forall>x \<in> set identifiers. \<exists>!c. c \<in> set cid \<and> x \<in> set (snd c))"
  proof (intro impI ballI)
    fix x
    assume dist: "distinct identifiers" and x: "x \<in> set identifiers"
    have "set (concat (map snd cid)) = set identifiers" using m by (rule mset_eq_setD)
    then have "x \<in> set (concat (map snd cid))" using x by simp
    then have "\<exists>c \<in> set cid. x \<in> set (snd c)" by auto
    then obtain c where c: "c \<in> set cid" "x \<in> set (snd c)" by blast
    have dc: "distinct (concat (map snd cid))"
      using m dist mset_eq_imp_distinct_iff by blast
    have "c' = c" if "c' \<in> set cid" "x \<in> set (snd c')" for c'
      using unique_component [OF dc that(1) c(1) that(2) c(2)] .
    then show "\<exists>!c. c \<in> set cid \<and> x \<in> set (snd c)" using c by blast
  qed
  show ?thesis
  proof (intro exI conjI)
    show "snd (obtain_connected_components (data_points, identifiers) persistence epsilon)
            = Inr (cdp, cid)" by (rule res)
  qed (rule s m d e u)+
qed

theorem components_partition_identifiers_witness:
  "square (dperm2all \<lparr>dperm2all = scenario_c\<rparr>)
   \<and> dperm2all \<lparr>dperm2all = scenario_c\<rparr> \<noteq> []
   \<and> length (dperm2all \<lparr>dperm2all = scenario_c\<rparr>) = length [''x'', ''y'', ''z'']
   \<and> snd (obtain_connected_components
       ([[0, 0, 0], [1, 0, 0], [1, 1, 1]], [''x'', ''y'', ''z'']) \<lparr>dperm2all = scenario_c\<rparr> 0.6)
       = Inr ([(0, [[0, 0, 0], [1, 0, 0]]), (1, [[1, 1, 1]])], [(0, [''x'', ''y'']), (1, [''z''])])
   \<and> (\<exists>cdp cid.
         snd (obtain_connected_components
           ([[0, 0, 0], [1, 0, 0], [1, 1, 1]], [''x'', ''y'', ''z''])
           \<lparr>dperm2all = scenario_c\<rparr> 0.6) = Inr (cdp, cid)
       \<and> sum_list (map (\<lambda>c. length (snd c)) cid) = length [''x'', ''y'', ''z'']
       \<and> mset (concat (map snd cid)) = mset [''x'', ''y'', ''z''])"
proof -
  have 1: "square (dperm2all \<lparr>dperm2all = scenario_c\<rparr>)" by code_simp
  have 0: "dperm2all \<lparr>dperm2all = scenario_c\<rparr> \<noteq> []" by (simp add: scenario_c_def)
  have 2: "length (dperm2all \<lparr>dperm2all = scenario_c\<rparr>) = length [''x'', ''y'', ''z'']"
    by code_simp
  have 3: "length [[0, 0, 0], [1, 0, 0], [1, 1, 1 :: real]] = length [''x'', ''y'', ''z'']"
    by simp
  have 4: "snd (obtain_connected_components
       ([[0, 0, 0], [1, 0, 0], [1, 1, 1]], [''x'', ''y'', ''z'']) \<lparr>dperm2all = scenario_c\<rparr> 0.6)
       = Inr ([(0, [[0, 0, 0], [1, 0, 0]]), (1, [[1, 1, 1]])], [(0, [''x'', ''y'']), (1, [''z''])])"
    by code_simp
  show ?thesis
    using 0 1 2 4 components_partition_identifiers [OF 1 0 2 3, of "0.6"] by blast
qed

text \<open>
  Claim C8. For a square distance matrix and any \<open>epsilon\<close>, the component stored
  under a label holds the identifiers (and data points) of the indices with that label,
  in order, and two indices have the same label exactly when a path of close pairs
  joins them, a pair being close when its distance is at most \<open>epsilon\<close>; in a
  symmetric matrix that is the entry of the pair. On the matrix of scenario C with
  \<open>epsilon = 0.6\<close> the components are those of the indices \<open>{0, 1}\<close> and \<open>{2}\<close>.
\<close>

theorem same_component_iff_path:
  assumes "square (dperm2all persistence)"
    and "length (dperm2all persistence) = length identifiers"
    and "length data_points = length identifiers"
    and "i < length identifiers" and "j < length identifiers"
  shows "(\<exists>labels cdp cid.
           connected_components (threshold epsilon (dperm2all persistence)) = Inr labels
         \<and> snd (obtain_connected_components (data_points, identifiers) persistence epsilon)
             = Inr (cdp, cid)
         \<and> dict_get cid l [] =
             map ((!) identifiers) (filter (\<lambda>k. labels ! k = l) [0..<length identifiers])
         \<and> dict_get cdp l [] =
             map ((!) data_points) (filter (\<lambda>k. labels ! k = l) [0..<length identifiers])
         \<and> (labels ! i = labels ! j)
             = ((i, j) \<in> (close_pairs (dperm2all persistence) epsilon)\<^sup>*))
       \<and> (symmetric (dperm2all persistence) \<longrightarrow>
            close_pairs (dperm2all persistence) epsilon
              = {(a, b). a < length identifiers \<and> b < length identifiers
                   \<and> dperm2all persistence ! a ! b \<le> epsilon})
       \<and> snd (obtain_connected_components
           ([[0], [1], [2]], [''0'', ''1'', ''2'']) \<lparr>dperm2all = scenario_c\<rparr> 0.6)
         = Inr ([(0, [[0], [1]]), (1, [[2]])], [(0, [''0'', ''1'']), (1, [''2''])])"
proof (intro conjI)
  have ne: "dperm2all persistence \<noteq> []" using assms(2,4) by auto
  from obtain_connected_components_result [OF assms(1) ne assms(2,3), of epsilon]
  obtain labels cdp cid where
    cc: "connected_components (threshold epsilon (dperm2all persistence)) = Inr labels"
    and len: "length labels = length identifiers"
    and same: "\<forall>i j. i < length identifiers \<longrightarrow> j < length identifiers
               \<longrightarrow> (labels ! i = labels ! j)
                    = ((i, j) \<in> (close_pairs (dperm2all persistence) epsilon)\<^sup>*)"
    and res: "snd (obtain_connected_components (data_points, identifiers) persistence epsilon)
                = Inr (cdp, cid)"
    and gl: "group_loop (enumerate 0 labels) data_points identifiers [] [] = Inr (cdp, cid)"
    by blast
  have "dict_get cid l [] =
          map ((!) identifiers) (filter (\<lambda>k. labels ! k = l) [0..<length identifiers])"
    using group_loop_identifiers [OF gl, of l] by (simp add: enumerate_label len)
  moreover have "dict_get cdp l [] =
          map ((!) data_points) (filter (\<lambda>k. labels ! k = l) [0..<length identifiers])"
    using group_loop_data_points [OF gl, of l] by (simp add: enumerate_label len)
  moreover have "(labels ! i = labels ! j)
                   = ((i, j) \<in> (close_pairs (dperm2all persistence) epsilon)\<^sup>*)"
    using same assms(4,5) by blast
  ultimately show "\<exists>labels cdp cid.
           connected_components (threshold epsilon (dperm2all persistence)) = Inr labels
         \<and> snd (obtain_connected_components (data_points, identifiers) persistence epsilon)
             = Inr (cdp, cid)
         \<and> dict_get cid l [] =
             map ((!) identifiers) (filter (\<lambda>k. labels ! k = l) [0..<length identifiers])
         \<and> dict_get cdp l [] =
             map ((!) data_points) (filter (\<lambda>k. labels ! k = l) [0..<length identifiers])
         \<and> (labels ! i = labels ! j)
             = ((i, j) \<in> (close_pairs (dperm2all persistence) epsilon)\<^sup>*)"
    using cc res by blast
next
  show "symmetric (dperm2all persistence) \<longrightarrow>
          close_pairs (dperm2all persistence) epsilon
            = {(a, b). a < length identifiers \<and> b < length identifiers
                 \<and> dperm2all persistence ! a ! b \<le> epsilon}"
    using close_pairs_symmetric [of "dperm2all persistence" epsilon] assms(2) by simp
next
  show "snd (obtain_connected_components
           ([[0], [1], [2]], [''0'', ''1'', ''2'']) \<lparr>dperm2all = scenario_c\<rparr> 0.6)
         = Inr ([(0, [[0], [1]]), (1, [[2]])], [(0, [''0'', ''1'']), (1, [''2''])])"
    by code_simp
qed

theorem same_component_iff_path_witness:
  "square (dperm2all \<lparr>dperm2all = scenario_c\<rparr>)
   \<and> length (dperm2all \<lparr>dperm2all = scenario_c\<rparr>) = length [''0'', ''1'', ''2'']
   \<and> connected_components (threshold 0.6 scenario_c) = Inr [0, 0, 1]
   \<and> (0, 1) \<in> (close_pairs scenario_c 0.6)\<^sup>*
   \<and> (0, 2) \<notin> (close_pairs scenario_c 0.6)\<^sup>*"
proof -
  let ?p = "\<lparr>dperm2all = scenario_c\<rparr>"
  let ?ids = "[''0'', ''1'', ''2'']"
  have 1: "square (dperm2all ?p)" by code_simp
  have 2: "length (dperm2all ?p) = length ?ids" by code_simp
  have 3: "length [[0], [1], [2 :: real]] = length ?ids" by simp
  have i0: "0 < length ?ids" and i1: "1 < length ?ids" and i2: "2 < length ?ids" by simp_all
  have cc: "connected_components (threshold 0.6 (dperm2all ?p)) = Inr [0, 0, 1]" by code_simp
  have "(0, 1) \<in> (close_pairs (dperm2all ?p) 0.6)\<^sup>*"
    using same_component_iff_path [OF 1 2 3 i0 i1, of "0.6" 0, THEN conjunct1] cc by auto
  moreover have "(0, 2) \<notin> (close_pairs (dperm2all ?p) 0.6)\<^sup>*"
    using same_component_iff_path [OF 1 2 3 i0 i2, of "0.6" 0, THEN conjunct1] cc by auto
  ultimately show ?thesis using 1 2 cc by simp
qed


end
